theory Spec2Isabelle
  imports Main
begin

section \<open>Python values\<close>

text \<open>
  A Python character is modelled by its code point and a Python \<open>str\<close> by the list of
  its code points, so every Python string has a model (string literals are written
  \<open>pystr ''a-z''\<close>). Python integers are \<open>int\<close>. \<open>ord\<close> reads the code point;
  \<open>chr\<close> goes back. Python's \<open>chr\<close> raises ValueError outside \<open>range(0x110000)\<close>;
  the program only calls it on a number that lies between the code points of the two
  characters of a range piece (lemma \<open>Charset_iter_bounded\<close> below), so that branch
  is not part of the model.
\<close>

type_synonym pychar = nat
type_synonym pystr = "pychar list"

definition pystr :: "string \<Rightarrow> pystr" where
  "pystr s = map of_char s"

definition py_ord :: "pychar \<Rightarrow> int" where
  "py_ord c = int c"

definition py_chr :: "int \<Rightarrow> pychar" where
  "py_chr i = nat i"

text \<open>\<open>range(a, b)\<close> over Python integers.\<close>

definition py_range :: "int \<Rightarrow> int \<Rightarrow> int list" where
  "py_range a b = [a..b - 1]"

datatype error = ValueError | TypeError | IndexError | BadParameter | TransportError

section \<open>Charset\<close>

text \<open>
  \<open>PIECE_PATTERN = re.compile(r'^(?:(.)-(.))|(.+)$')\<close>, used with \<open>match\<close>.
  The alternation binds weakest: the first alternative is two characters around a dash
  at the start of the piece (whatever follows), the second is a non-empty run of
  characters up to the end of the piece. \<open>.\<close> matches every character but the newline;
  \<open>$\<close> matches at the end and before a newline that ends the string.
  The result holds groups 1 and 2, or group 3.
\<close>

datatype piece_match = Groups12 pychar pychar | Group3 pystr

definition newline :: pychar where
  "newline = 10"

definition dash :: pychar where
  "dash = 45"

definition PIECE_PATTERN_group3 :: "pystr \<Rightarrow> piece_match option" where
  "PIECE_PATTERN_group3 piece =
     (let body = takeWhile (\<lambda>c. c \<noteq> newline) piece;
          rest = dropWhile (\<lambda>c. c \<noteq> newline) piece
      in if body \<noteq> [] \<and> (rest = [] \<or> rest = [newline]) then Some (Group3 body) else None)"

definition PIECE_PATTERN_match :: "pystr \<Rightarrow> piece_match option" where
  "PIECE_PATTERN_match piece =
     (case piece of
        c1 # d # c2 # rest \<Rightarrow>
          if c1 \<noteq> newline \<and> d = dash \<and> c2 \<noteq> newline then Some (Groups12 c1 c2)
          else PIECE_PATTERN_group3 piece
      | _ \<Rightarrow> PIECE_PATTERN_group3 piece)"

text \<open>
  A piece is a tuple of one string (a block of characters taken literally) or of two
  characters (a range); \<open>sizes\<close> is the parallel tuple of sizes.
\<close>

datatype piece = Block pystr | CharRange pychar pychar

record charset =
  pieces :: "piece list"
  sizes :: "int list"

text \<open>The body of the loop of \<open>Charset.__init__\<close> for one piece.\<close>

definition Charset_add :: "pystr \<Rightarrow> charset \<Rightarrow> error + charset" where
  "Charset_add piece self =
     (case PIECE_PATTERN_match piece of
        None \<Rightarrow> Inl ValueError
      | Some (Group3 block) \<Rightarrow>
          Inr (self\<lparr>pieces := pieces self @ [Block block], sizes := sizes self @ [1]\<rparr>)
      | Some (Groups12 char1 char2) \<Rightarrow>
          if char1 = char2 then
            Inr (self\<lparr>pieces := pieces self @ [Block [char1]], sizes := sizes self @ [1]\<rparr>)
          else
            let (char1, char2) =
                  (if py_ord char1 > py_ord char2 then (char2, char1) else (char1, char2))
            in Inr (self\<lparr>pieces := pieces self @ [CharRange char1 char2],
                          sizes := sizes self @ [py_ord char2 - py_ord char1]\<rparr>))"

fun Charset_loop :: "pystr list \<Rightarrow> charset \<Rightarrow> error + charset" where
  "Charset_loop [] self = Inr self"
| "Charset_loop (piece # ps) self =
     (case Charset_add piece self of
        Inl e \<Rightarrow> Inl e
      | Inr self' \<Rightarrow> Charset_loop ps self')"

definition Charset :: "pystr list \<Rightarrow> error + charset" where
  "Charset ps = Charset_loop ps \<lparr>pieces = [], sizes = []\<rparr>"

definition Charset_len :: "charset \<Rightarrow> int" where
  "Charset_len self = sum_list (sizes self)"

text \<open>\<open>Charset.__iter__\<close>: the symbols in the order they are yielded.\<close>

fun piece_iter :: "piece \<Rightarrow> pystr list" where
  "piece_iter (Block s) = [s]"
| "piece_iter (CharRange c1 c2) = map (\<lambda>point. [py_chr point]) (py_range (py_ord c1) (py_ord c2))"

definition Charset_iter :: "charset \<Rightarrow> pystr list" where
  "Charset_iter self = concat (map piece_iter (pieces self))"

text \<open>
  \<open>Charset.__getitem__\<close>. Falling out of the loop returns Python's \<open>None\<close>, the
  model's \<open>Inr None\<close>; the method has no \<open>raise\<close> of its own. \<open>piece[0]\<close> is the
  block, or the first character of a range; \<open>ord\<close> of a string that is not one
  character long raises TypeError.
\<close>

fun piece0 :: "piece \<Rightarrow> pystr" where
  "piece0 (Block s) = s"
| "piece0 (CharRange c1 c2) = [c1]"

definition ord_str :: "pystr \<Rightarrow> error + int" where
  "ord_str s = (case s of [c] \<Rightarrow> Inr (py_ord c) | _ \<Rightarrow> Inl TypeError)"

fun getitem_loop :: "(piece \<times> int) list \<Rightarrow> int \<Rightarrow> error + pystr option" where
  "getitem_loop [] index = Inr None"
| "getitem_loop ((piece, sz) # rest) index =
     (if index \<ge> sz then getitem_loop rest (index - sz)
      else if sz = 1 then Inr (Some (piece0 piece))
      else (case ord_str (piece0 piece) of
              Inl e \<Rightarrow> Inl e
            | Inr point \<Rightarrow> Inr (Some [py_chr (point + index)])))"

definition Charset_getitem :: "charset \<Rightarrow> int \<Rightarrow> error + pystr option" where
  "Charset_getitem self index =
     (let index = (if index < 0 then Charset_len self - index else index)
      in getitem_loop (zip (pieces self) (sizes self)) index)"

section \<open>CharsetGenerator\<close>

text \<open>
  \<open>itertools.product(xs, repeat=n)\<close>: every tuple of \<open>n\<close> elements of \<open>xs\<close>, the
  rightmost position varying fastest.
\<close>

fun product :: "'a list \<Rightarrow> nat \<Rightarrow> 'a list list" where
  "product xs 0 = [[]]"
| "product xs (Suc n) = concat (map (\<lambda>x. map ((#) x) (product xs n)) xs)"

text \<open>
  The lengths \<open>mi\<close> and \<open>ma\<close> come from options of type \<open>IntRange(min=1)\<close>; they are
  natural numbers in the model.
\<close>

record charset_generator =
  gen_chars :: charset
  mi :: nat
  ma :: nat

text \<open>\<open>CharsetGenerator.__iter__\<close>: the candidates in the order they are yielded.\<close>

definition CharsetGenerator_iter :: "charset_generator \<Rightarrow> pystr list" where
  "CharsetGenerator_iter self =
     concat (map (\<lambda>l. map concat (product (Charset_iter (gen_chars self)) l))
                 [mi self ..< ma self + 1])"

text \<open>The candidates of one length: the inner loop of \<open>CharsetGenerator.__iter__\<close>.\<close>

definition level :: "charset \<Rightarrow> nat \<Rightarrow> pystr list" where
  "level cs l = map concat (product (Charset_iter cs) l)"

section \<open>HBusterSession\<close>

text \<open>
  The HTTP client is not part of the repository. \<open>self.session.get(url)\<close> followed by
  \<open>await resp.status()\<close> is taken as one capability \<open>get\<close>, which for a URL either
  reports a Python value or raises. A status code is an integer; the source itself fixes
  no type for the value and compares it with \<open>in\<close> against a set, so the model admits a
  string as well. Values of different types are never equal in Python, as distinct
  constructors are not.

  With the client that \<open>start\<close> builds, \<open>aiohttp.ClientSession\<close>, the status of a
  response is an integer attribute and not a method: the call \<open>resp.status()\<close> raises
  TypeError for every request that is answered, and a request that is not answered
  raises a transport error. For that client \<open>get\<close> is \<open>Inl\<close> at every URL.
  \<open>integer_status\<close> holds of the clients whose answers are status codes or exceptions.
\<close>

datatype pyval = IntV int | StrV pystr

type_synonym http_get = "pystr \<Rightarrow> error + pyval"


text \<open>\<open>str.split(sep)\<close> for a separator of one character.\<close>

fun split :: "pystr \<Rightarrow> pychar \<Rightarrow> pystr list" where
  "split [] sep = [[]]"
| "split (c # cs) sep =
     (if c = sep then [] # split cs sep
      else (case split cs sep of
              w # ws \<Rightarrow> (c # w) # ws
            | [] \<Rightarrow> [[c]]))"

text \<open>\<open>str.strip()\<close>: the characters for which \<open>str.isspace\<close> holds are removed at both ends.\<close>

definition isspace :: "pychar \<Rightarrow> bool" where
  "isspace c \<longleftrightarrow>
     (9 \<le> c \<and> c \<le> 13) \<or> (28 \<le> c \<and> c \<le> 32) \<or> c = 133 \<or> c = 160 \<or> c = 5760 \<or>
     (8192 \<le> c \<and> c \<le> 8202) \<or> c = 8232 \<or> c = 8233 \<or> c = 8239 \<or> c = 8287 \<or> c = 12288"

definition strip :: "pystr \<Rightarrow> pystr" where
  "strip s = rev (dropWhile isspace (rev (dropWhile isspace s)))"

text \<open>\<open>list.pop(i)\<close> for an index within the list.\<close>

definition pop :: "nat \<Rightarrow> 'a list \<Rightarrow> 'a list" where
  "pop i xs = take i xs @ drop (Suc i) xs"

text \<open>
  The fields of \<open>HBusterSession\<close>. A pool file (an open word list, or an iterator of
  the generator) is the list of the lines, or candidates, it has still to yield.
  \<open>wordlist\<close> holds the lines of the file that \<open>dirlist\<close> names, as \<open>open\<close> finds
  them, and \<open>echoed\<close> what \<open>click.echo\<close> has printed from the tasks: the file system
  and the terminal, made part of the state. The fields of the time keeper
  (\<open>startTime\<close>, \<open>requestRate\<close>, \<open>running\<close>) are left out with it: it only reads
  \<open>requests\<close> and prints a floating-point rate.
\<close>

record hbuster_session =
  numTasks :: nat
  dirlist :: "pystr option"
  chars :: charset
  minLength :: nat
  maxLength :: nat
  recursive :: bool
  extensions :: "pystr list"
  validStatus :: "pyval set"
  host :: pystr
  listBased :: bool
  charGenerator :: charset_generator
  workPools :: "pystr list"
  poolFiles :: "pystr list list"
  seen :: "pystr set"
  found :: "pystr list"
  requests :: int
  wordlist :: "pystr list"
  echoed :: "pystr list"

definition addFile :: "hbuster_session \<Rightarrow> hbuster_session" where
  "addFile self =
     (if listBased self then self\<lparr>poolFiles := poolFiles self @ [wordlist self]\<rparr>
      else self\<lparr>poolFiles := poolFiles self @ [CharsetGenerator_iter (charGenerator self)]\<rparr>)"

text \<open>\<open>HBusterSession.__init__\<close>; the last argument is the content of the word list file.\<close>

definition HBusterSession ::
  "nat \<Rightarrow> pystr option \<Rightarrow> charset \<Rightarrow> nat \<Rightarrow> nat \<Rightarrow> bool \<Rightarrow> pystr list \<Rightarrow> pystr \<Rightarrow> pystr
   \<Rightarrow> pystr list \<Rightarrow> hbuster_session" where
  "HBusterSession tasks dirlist' chars' mn mx recursive' extensions' validStatus' host' lines =
     (let self = \<lparr>numTasks = tasks, dirlist = dirlist', chars = chars',
                   minLength = mn, maxLength = mx, recursive = recursive',
                   extensions = extensions',
                   validStatus = StrV ` set (split validStatus' (of_char CHR '','')),
                   host = host',
                   listBased = (dirlist' \<noteq> None),
                   charGenerator = \<lparr>gen_chars = chars', mi = mn, ma = mx\<rparr>,
                   workPools = [[]],
                   poolFiles = [],
                   seen = {},
                   found = [],
                   requests = 0,
                   wordlist = lines,
                   echoed = []\<rparr>;
          self = addFile self
      in self\<lparr>seen := insert [] (seen self)\<rparr>)"

text \<open>
  \<open>testPath\<close>: the URL is recorded in \<open>found\<close> when the reported status is in
  \<open>validStatus\<close>; an error of \<open>get\<close> is not caught.
\<close>

definition testPath :: "http_get \<Rightarrow> hbuster_session \<Rightarrow> pystr \<Rightarrow> error + (bool \<times> hbuster_session)" where
  "testPath get self path =
     (let url = host self @ path
      in case get url of
           Inl e \<Rightarrow> Inl e
         | Inr status \<Rightarrow>
             if status \<in> validStatus self then Inr (True, self\<lparr>found := found self @ [url]\<rparr>)
             else Inr (False, self))"

text \<open>
  A task (the coroutine \<open>task(id)\<close>) gives control away only inside \<open>testPath\<close>, while
  it waits for the answer of \<open>get\<close> (leaving the \<open>async with\<close> block belongs to that
  wait); between two such points it runs alone. It is at the head of its \<open>while\<close>
  loop, or suspended in \<open>testPath(path + fileExt)\<close> with the extensions of the \<open>for\<close>
  loop still to come, or it has left the loop, or an exception has left it.
\<close>

datatype task_state =
  AtLoopHead | InTestPath pystr pystr "pystr list" | Returned | Raised error

definition pool_work :: "hbuster_session \<Rightarrow> nat" where
  "pool_work self = length (workPools self) + sum_list (map length (poolFiles self))"

text \<open>
  From the head of the \<open>while\<close> loop to the next call of \<open>testPath\<close>, or out of the loop.
  \<open>next\<close> on an exhausted pool file raises StopIteration, which the task catches to
  pop the job; an index outside \<open>poolFiles\<close> raises IndexError, which it does not catch.
\<close>

function task_loop :: "nat \<Rightarrow> hbuster_session \<Rightarrow> task_state \<times> hbuster_session" where
  "task_loop tid self =
     (if workPools self = [] then (Returned, self)
      else
        let currentJob = tid mod length (workPools self);
            confirmed = workPools self ! currentJob
        in if currentJob \<ge> length (poolFiles self) then (Raised IndexError, self)
           else
             (case poolFiles self ! currentJob of
                [] \<Rightarrow>
                  task_loop tid (self\<lparr>workPools := pop currentJob (workPools self),
                                       poolFiles := pop currentJob (poolFiles self)\<rparr>)
              | line # rest \<Rightarrow>
                  let self' = self\<lparr>poolFiles := (poolFiles self)[currentJob := rest]\<rparr>;
                      extension = strip line;
                      path = confirmed @ pystr ''/'' @ extension
                  in if path \<in> seen self' then task_loop tid self'
                     else
                       (case extensions self' of
                          [] \<Rightarrow> task_loop tid self'
                        | fileExt # exts \<Rightarrow> (InTestPath path fileExt exts, self'))))"
  by pat_completeness auto

lemma sum_list_length_update:
  "i < length xss \<Longrightarrow> xss ! i = x # rest \<Longrightarrow>
   Suc (sum_list (map length (xss[i := rest]))) = sum_list (map length xss)"
proof (induction xss arbitrary: i)
  case Nil
  then show ?case by simp
next
  case (Cons a xss)
  then show ?case by (cases i) auto
qed

lemma sum_list_length_pop:
  "sum_list (map length (pop i xss)) \<le> sum_list (map length xss)"
proof -
  have "sum_list (map length (take i xss)) + sum_list (map length (drop i xss))
          = sum_list (map length xss)"
    by (metis append_take_drop_id map_append sum_list_append)
  moreover have "sum_list (map length (drop (Suc i) xss)) \<le> sum_list (map length (drop i xss))"
    by (cases "i < length xss") (simp_all add: Cons_nth_drop_Suc[symmetric])
  ultimately show ?thesis by (simp add: pop_def)
qed

lemma length_pop: "i < length xs \<Longrightarrow> Suc (length (pop i xs)) = length xs"
  by (auto simp: pop_def)

termination task_loop
proof (relation "measure (\<lambda>(tid, self). pool_work self)")
  show "wf (measure (\<lambda>(tid, self). pool_work self))" by simp
next
  fix tid :: nat and self :: hbuster_session and x xa
  assume "workPools self \<noteq> []" "x = tid mod length (workPools self)"
  then have "x < length (workPools self)" by simp
  then show "((tid, self\<lparr>workPools := pop x (workPools self), poolFiles := pop x (poolFiles self)\<rparr>),
              tid, self) \<in> measure (\<lambda>(tid, self). pool_work self)"
    using length_pop[of x "workPools self"] sum_list_length_pop[of x "poolFiles self"]
    by (simp add: pool_work_def)
next
  fix tid :: nat and self :: hbuster_session and x xa x21 x22 xb
  assume "\<not> length (poolFiles self) \<le> x" "poolFiles self ! x = x21 # x22"
    "xb = self\<lparr>poolFiles := (poolFiles self)[x := x22]\<rparr>"
  then show "((tid, xb), tid, self) \<in> measure (\<lambda>(tid, self). pool_work self)"
    using sum_list_length_update[of x "poolFiles self" x21 x22]
    by (simp add: pool_work_def)
next
  fix tid :: nat and self :: hbuster_session and x xa x21 x22 xb
  assume "\<not> length (poolFiles self) \<le> x" "poolFiles self ! x = x21 # x22"
    "xb = self\<lparr>poolFiles := (poolFiles self)[x := x22]\<rparr>"
  then show "((tid, xb), tid, self) \<in> measure (\<lambda>(tid, self). pool_work self)"
    using sum_list_length_update[of x "poolFiles self" x21 x22]
    by (simp add: pool_work_def)
qed

declare task_loop.simps [simp del]

text \<open>
  The rest of one round of the \<open>for\<close> loop, from the moment \<open>testPath(path + fileExt)\<close>
  has its answer: an exception of \<open>testPath\<close> leaves the task with the session as it
  is; otherwise the echo and the new job when the path is valid, the request count,
  then the next extension, or back to the head of the \<open>while\<close> loop.
\<close>

definition task_resume ::
  "http_get \<Rightarrow> nat \<Rightarrow> pystr \<Rightarrow> pystr \<Rightarrow> pystr list \<Rightarrow> hbuster_session
   \<Rightarrow> task_state \<times> hbuster_session" where
  "task_resume get tid path fileExt exts self =
     (case testPath get self (path @ fileExt) of
        Inl e \<Rightarrow> (Raised e, self)
      | Inr (valid, self1) \<Rightarrow>
          let self2 =
                (if valid then
                   let self' = self1\<lparr>echoed := echoed self1 @ [path]\<rparr>
                   in if recursive self' then
                        let self'' = addFile (self'\<lparr>workPools := workPools self' @ [path]\<rparr>)
                        in self''\<lparr>seen := insert path (seen self'')\<rparr>
                      else self'
                 else self1);
              self3 = self2\<lparr>requests := requests self2 + 1\<rparr>
          in case exts of
               fileExt' # exts' \<Rightarrow> (InTestPath path fileExt' exts', self3)
             | [] \<Rightarrow> task_loop tid self3)"

text \<open>
  The state of a run of \<open>start\<close>: the state of each task of \<open>taskPool\<close> and the session
  they share. \<open>task_step\<close> lets task \<open>tid\<close> run from where it stands to its next
  suspension, its return or its exception; a task that has returned or raised does
  nothing more.
\<close>

type_synonym run_state = "task_state list \<times> hbuster_session"

definition start_state :: "hbuster_session \<Rightarrow> run_state" where
  "start_state self = (replicate (numTasks self) AtLoopHead, self)"

definition task_step :: "http_get \<Rightarrow> nat \<Rightarrow> run_state \<Rightarrow> run_state" where
  "task_step get tid st =
     (let (tasks, self) = st
      in if tid \<ge> length tasks then st
         else
           (case tasks ! tid of
              AtLoopHead \<Rightarrow>
                (let (t, self') = task_loop tid self in (tasks[tid := t], self'))
            | InTestPath path fileExt exts \<Rightarrow>
                (let (t, self') = task_resume get tid path fileExt exts self
                 in (tasks[tid := t], self'))
            | Returned \<Rightarrow> st
            | Raised e \<Rightarrow> st))"

text \<open>The tasks resumed in a given order, one step each.\<close>

fun run :: "http_get \<Rightarrow> nat list \<Rightarrow> run_state \<Rightarrow> run_state" where
  "run get [] st = st"
| "run get (tid # order) st = run get order (task_step get tid st)"

text \<open>
  \<open>await asyncio.gather(*taskPool)\<close> for one order of resumption: the list names the
  task that the event loop resumes next (which answer arrives first is not the
  program's choice). As soon as a task has raised, \<open>gather\<close> raises that exception to
  \<open>start\<close>, which has no handler, and \<open>hbuster\<close> closes the loop: the run ends with
  the first exception. \<open>gather\<close> does not cancel the other tasks, which may still be
  resumed until the loop is closed; the result \<open>Inl\<close> says nothing of the session.
\<close>

fun gather :: "http_get \<Rightarrow> nat list \<Rightarrow> run_state \<Rightarrow> error + run_state" where
  "gather get [] st = Inr st"
| "gather get (tid # order) st =
     (let st' = task_step get tid st
      in case (if tid < length (fst st') then fst st' ! tid else Returned) of
           Raised e \<Rightarrow> Inl e
         | _ \<Rightarrow> gather get order st')"

text \<open>
  One step of a run: any task that is neither returned nor raised, with any client;
  \<open>step_int\<close> is the same with a client whose answers are status codes or exceptions.
\<close>

fun active :: "task_state \<Rightarrow> bool" where
  "active AtLoopHead = True"
| "active (InTestPath path fileExt exts) = True"
| "active Returned = False"
| "active (Raised e) = False"

inductive step :: "run_state \<Rightarrow> run_state \<Rightarrow> bool" where
  "tid < length (fst st) \<Longrightarrow> active (fst st ! tid) \<Longrightarrow> step st (task_step get tid st)"


definition all_returned :: "run_state \<Rightarrow> bool" where
  "all_returned st = list_all (\<lambda>t. t = Returned) (fst st)"

section \<open>The command\<close>

text \<open>
  The start of \<open>hbuster\<close>, up to the session it builds. \<open>dirlist\<close> and \<open>extensions\<close>
  are \<open>None\<close> or a string; \<open>None\<close> and the empty string are false as a condition.
  The minimum and maximum are called \<open>mn\<close> and \<open>mx\<close> here.
\<close>

definition truthy :: "pystr option \<Rightarrow> bool" where
  "truthy v = (case v of None \<Rightarrow> False | Some s \<Rightarrow> s \<noteq> [])"

definition hbuster_range :: "pystr option \<Rightarrow> nat \<Rightarrow> nat \<Rightarrow> error + unit" where
  "hbuster_range dirlist' mn mx =
     (if truthy dirlist' \<and> mn > mx then Inl BadParameter else Inr ())"

text \<open>
  Lines 311 to 313. The first assignment binds the name \<open>extensions\<close> to the list
  \<open>['']\<close>, and the option's value \<open>extensions0\<close> is not read after it: the test
  \<open>is not None\<close> sees that list, so it holds, and the comprehension runs over it.
\<close>

definition hbuster_extensions :: "pystr option \<Rightarrow> pystr list" where
  "hbuster_extensions extensions0 =
     (let extensions1 = [[]]
      in extensions1 @ map (\<lambda>ext. pystr ''.'' @ ext) extensions1)"

text \<open>\<open>host[-1]\<close> raises IndexError on the empty string.\<close>

definition hbuster_host :: "pystr \<Rightarrow> error + pystr" where
  "hbuster_host host' =
     (if host' = [] then Inl IndexError
      else if last host' = of_char CHR ''/'' then Inr (butlast host') else Inr host')"

definition hbuster ::
  "nat \<Rightarrow> pystr option \<Rightarrow> charset \<Rightarrow> nat \<Rightarrow> nat \<Rightarrow> bool \<Rightarrow> pystr option \<Rightarrow> pystr \<Rightarrow> pystr
   \<Rightarrow> pystr list \<Rightarrow> error + hbuster_session" where
  "hbuster tasks dirlist' chars' mn mx recursive' extensions0 status host' lines =
     (case hbuster_range dirlist' mn mx of
        Inl e \<Rightarrow> Inl e
      | Inr _ \<Rightarrow>
          let exts = hbuster_extensions extensions0
          in case hbuster_host host' of
               Inl e \<Rightarrow> Inl e
             | Inr host'' \<Rightarrow>
                 Inr (HBusterSession tasks dirlist' chars' mn mx recursive' exts status host'' lines))"

section \<open>Invariants and measures\<close>

text \<open>
  What \<open>Charset.__init__\<close> establishes: a block has size 1, a range has its two
  characters in ascending order and the difference of their code points as size.
\<close>

fun piece_ok :: "piece \<Rightarrow> int \<Rightarrow> bool" where
  "piece_ok (Block s) sz = (sz = 1)"
| "piece_ok (CharRange c1 c2) sz = (c1 < c2 \<and> sz = py_ord c2 - py_ord c1)"

fun piece_below :: "nat \<Rightarrow> piece \<Rightarrow> bool" where
  "piece_below B (Block s) = list_all (\<lambda>c. c < B) s"
| "piece_below B (CharRange c1 c2) = (c1 < B \<and> c2 < B)"

subsection \<open>Of a run\<close>

text \<open>
  The work a run has left: each task weighs the requests of its current round of the
  \<open>for\<close> loop, each line still in a pool file weighs one full round. \<open>job_pop\<close> and
  \<open>job_next\<close> are the two updates of the loop of a task. \<open>jobs_inv\<close> is the session
  invariant, together with what keeps it: no integer is a valid status. \<open>run_inv\<close>
  holds of every state of a run with \<open>recursive\<close> off: the two job lists have the same
  length, and once a task has returned the jobs list is empty.
\<close>

fun task_weight :: "task_state \<Rightarrow> nat" where
  "task_weight AtLoopHead = 1"
| "task_weight (InTestPath path fileExt exts) = 1 + length exts"
| "task_weight Returned = 0"
| "task_weight (Raised e) = 0"

definition lines_left :: "hbuster_session \<Rightarrow> nat" where
  "lines_left self = sum_list (map length (poolFiles self))"

definition run_work :: "run_state \<Rightarrow> nat" where
  "run_work st =
     sum_list (map task_weight (fst st)) + (length (extensions (snd st)) + 1) * lines_left (snd st)"

definition job_pop :: "nat \<Rightarrow> hbuster_session \<Rightarrow> hbuster_session" where
  "job_pop j s = s\<lparr>workPools := pop j (workPools s), poolFiles := pop j (poolFiles s)\<rparr>"

definition job_next :: "nat \<Rightarrow> pystr list \<Rightarrow> hbuster_session \<Rightarrow> hbuster_session" where
  "job_next j rest s = s\<lparr>poolFiles := (poolFiles s)[j := rest]\<rparr>"


definition run_inv :: "run_state \<Rightarrow> bool" where
  "run_inv st \<longleftrightarrow>
     \<not> recursive (snd st) \<and>
     length (workPools (snd st)) = length (poolFiles (snd st)) \<and>
     (Returned \<in> set (fst st) \<longrightarrow> workPools (snd st) = [])"

section \<open>Properties of Charset\<close>

lemmas charset_eval =
  Charset_def Charset_add_def PIECE_PATTERN_match_def PIECE_PATTERN_group3_def
  pystr_def newline_def dash_def py_ord_def py_chr_def py_range_def
  Charset_len_def Charset_iter_def Charset_getitem_def ord_str_def

text \<open>The pattern, \<open>split\<close> and \<open>strip\<close> on the inputs where their cases part.\<close>

lemma PIECE_PATTERN_match_examples:
  "PIECE_PATTERN_match (pystr ''a-zfoo'') = Some (Groups12 97 122)"
  "PIECE_PATTERN_match (pystr ''---'') = Some (Groups12 45 45)"
  "PIECE_PATTERN_match (pystr ''%20'') = Some (Group3 (pystr ''%20''))"
  "PIECE_PATTERN_match (pystr ''a-'') = Some (Group3 (pystr ''a-''))"
  "PIECE_PATTERN_match (pystr ''a-'' @ [newline]) = Some (Group3 (pystr ''a-''))"
  "PIECE_PATTERN_match (pystr ''a'' @ [newline] @ pystr ''b'') = None"
  "PIECE_PATTERN_match [newline] = None"
  "PIECE_PATTERN_match [] = None"
  by (simp_all add: charset_eval)

lemma split_strip_examples:
  "split (pystr ''200,301'') (of_char CHR '','') = [pystr ''200'', pystr ''301'']"
  "split (pystr ''a,,b'') (of_char CHR '','') = [pystr ''a'', pystr '''', pystr ''b'']"
  "split (pystr '''') (of_char CHR '','') = [pystr '''']"
  "strip (pystr '' a b '' @ [newline]) = pystr ''a b''"
  by (simp_all add: pystr_def strip_def isspace_def newline_def)

lemma Charset_add_ok:
  assumes "Charset_add piece self = Inr self'"
    and "list_all2 piece_ok (pieces self) (sizes self)"
  shows "list_all2 piece_ok (pieces self') (sizes self')"
  using assms
  by (auto simp: Charset_add_def py_ord_def list_all2_appendI
      split: option.splits piece_match.splits if_splits)

lemma Charset_loop_ok:
  "Charset_loop ps self = Inr cs \<Longrightarrow> list_all2 piece_ok (pieces self) (sizes self)
   \<Longrightarrow> list_all2 piece_ok (pieces cs) (sizes cs)"
proof (induction ps arbitrary: self)
  case Nil
  then show ?case by simp
next
  case (Cons p ps)
  then show ?case by (auto split: sum.splits dest: Charset_add_ok)
qed

lemma Charset_ok: "Charset ps = Inr cs \<Longrightarrow> list_all2 piece_ok (pieces cs) (sizes cs)"
  unfolding Charset_def by (erule Charset_loop_ok) simp

lemma piece_iter_length: "piece_ok p sz \<Longrightarrow> int (length (piece_iter p)) = sz"
  by (cases p) (auto simp: py_range_def py_ord_def)

lemma piece_ok_pos: "piece_ok p sz \<Longrightarrow> 1 \<le> sz"
  by (cases p) (auto simp: py_ord_def)

lemma sizes_nonneg: "list_all2 piece_ok ps szs \<Longrightarrow> 0 \<le> sum_list szs"
  by (induction rule: list_all2_induct) (auto dest: piece_ok_pos)

lemma iter_length: "list_all2 piece_ok ps szs \<Longrightarrow> int (length (concat (map piece_iter ps))) = sum_list szs"
  by (induction rule: list_all2_induct) (auto dest: piece_iter_length)

lemma Charset_iter_length:
  "Charset ps = Inr cs \<Longrightarrow> int (length (Charset_iter cs)) = Charset_len cs"
  by (simp add: Charset_iter_def Charset_len_def iter_length Charset_ok)

lemma getitem_loop_iter:
  "list_all2 piece_ok ps szs \<Longrightarrow> 0 \<le> i \<Longrightarrow> i < sum_list szs \<Longrightarrow>
   getitem_loop (zip ps szs) i = Inr (Some (concat (map piece_iter ps) ! nat i))"
proof (induction ps szs arbitrary: i rule: list_all2_induct)
  case Nil
  then show ?case by simp
next
  case (Cons p ps sz szs)
  have len: "int (length (piece_iter p)) = sz"
    using Cons.hyps(1) by (rule piece_iter_length)
  show ?case
  proof (cases "i \<ge> sz")
    case True
    then have "getitem_loop (zip (p # ps) (sz # szs)) i = getitem_loop (zip ps szs) (i - sz)"
      by simp
    also have "\<dots> = Inr (Some (concat (map piece_iter ps) ! nat (i - sz)))"
      using Cons True piece_ok_pos[OF Cons.hyps(1)] by (intro Cons.IH) auto
    also have "concat (map piece_iter ps) ! nat (i - sz) = concat (map piece_iter (p # ps)) ! nat i"
    proof -
      have "length (piece_iter p) \<le> nat i" using True len by linarith
      moreover have "nat (i - sz) = nat i - length (piece_iter p)"
        using True len by linarith
      ultimately have "(piece_iter p @ concat (map piece_iter ps)) ! nat i
          = concat (map piece_iter ps) ! nat (i - sz)"
        by (simp add: nth_append)
      then show ?thesis by simp
    qed
    finally show ?thesis .
  next
    case False
    then have lt: "nat i < length (piece_iter p)" using len Cons.prems by linarith
    show ?thesis
    proof (cases p)
      case (Block s)
      then show ?thesis using False Cons.hyps(1) Cons.prems by (auto simp: nth_append)
    next
      case (CharRange c1 c2)
      then show ?thesis using False Cons.hyps(1) Cons.prems lt
        by (auto simp: nth_append py_range_def py_ord_def ord_str_def py_chr_def)
    qed
  qed
qed

lemma getitem_loop_past:
  "list_all2 piece_ok ps szs \<Longrightarrow> sum_list szs \<le> i \<Longrightarrow> getitem_loop (zip ps szs) i = Inr None"
proof (induction ps szs arbitrary: i rule: list_all2_induct)
  case Nil
  then show ?case by simp
next
  case (Cons p ps sz szs)
  then show ?case using sizes_nonneg[OF Cons.hyps(2)] by auto
qed

text \<open>
  C8. For a charset built by the constructor and an index with
  \<open>0 \<le> index < len(charset)\<close>, indexed access returns the symbol that iteration
  yields at that position (and the position exists in the iteration).
\<close>

theorem Charset_getitem_is_iter:
  assumes "Charset ps = Inr cs" and "0 \<le> index" and "index < Charset_len cs"
  shows "nat index < length (Charset_iter cs) \<and>
         Charset_getitem cs index = Inr (Some (Charset_iter cs ! nat index))"
proof
  show "nat index < length (Charset_iter cs)"
    using Charset_iter_length[OF assms(1)] assms(2,3) by linarith
  show "Charset_getitem cs index = Inr (Some (Charset_iter cs ! nat index))"
    using getitem_loop_iter[OF Charset_ok[OF assms(1)], of index] assms(2,3)
    by (simp add: Charset_getitem_def Charset_iter_def Charset_len_def)
qed

theorem Charset_getitem_is_iter_witness:
  "Charset [pystr ''a-d'', pystr ''%20'']
     = Inr \<lparr>pieces = [CharRange 97 100, Block (pystr ''%20'')], sizes = [3, 1]\<rparr>
   \<and> Charset_len \<lparr>pieces = [CharRange 97 100, Block (pystr ''%20'')], sizes = [3, 1]\<rparr> = 4
   \<and> Charset_getitem \<lparr>pieces = [CharRange 97 100, Block (pystr ''%20'')], sizes = [3, 1]\<rparr> 2
       = Inr (Some (pystr ''c''))
   \<and> Charset_iter \<lparr>pieces = [CharRange 97 100, Block (pystr ''%20'')], sizes = [3, 1]\<rparr> ! 2
       = pystr ''c''"
proof -
  let ?cs = "\<lparr>pieces = [CharRange 97 100, Block (pystr ''%20'')], sizes = [3, 1]\<rparr>"
  have c: "Charset [pystr ''a-d'', pystr ''%20''] = Inr ?cs"
    by (simp add: charset_eval)
  have l: "Charset_len ?cs = 4" by (simp add: charset_eval)
  have i: "Charset_iter ?cs ! 2 = pystr ''c''"
    by (simp add: charset_eval upto.simps)
  have "(0::int) \<le> 2" and "2 < Charset_len ?cs" using l by simp_all
  from Charset_getitem_is_iter[OF c this] i c l show ?thesis by simp
qed

text \<open>
  C9 as stated (indexed access at \<open>index \<ge> len(charset)\<close> raises an index error) does
  not hold: for the charset \<open>a-d,%20\<close> of length 4, index 4 returns \<open>None\<close>.
\<close>

theorem Charset_getitem_past_end_counterexample:
  "Charset [pystr ''a-d'', pystr ''%20'']
     = Inr \<lparr>pieces = [CharRange 97 100, Block (pystr ''%20'')], sizes = [3, 1]\<rparr>
   \<and> Charset_len \<lparr>pieces = [CharRange 97 100, Block (pystr ''%20'')], sizes = [3, 1]\<rparr> = 4
   \<and> Charset_getitem \<lparr>pieces = [CharRange 97 100, Block (pystr ''%20'')], sizes = [3, 1]\<rparr> 4
       = Inr None
   \<and> Charset_getitem \<lparr>pieces = [CharRange 97 100, Block (pystr ''%20'')], sizes = [3, 1]\<rparr> 4
       \<noteq> Inl IndexError"
  by (simp add: charset_eval)

text \<open>
  C9, amended. For a charset built by the constructor and every index with
  \<open>index \<ge> len(charset)\<close>, indexed access raises nothing and returns \<open>None\<close>.
\<close>

theorem Charset_getitem_past_end:
  assumes "Charset ps = Inr cs" and "Charset_len cs \<le> index"
  shows "Charset_getitem cs index = Inr None"
proof -
  have "0 \<le> Charset_len cs"
    using sizes_nonneg[OF Charset_ok[OF assms(1)]] by (simp add: Charset_len_def)
  then have "\<not> index < 0" using assms(2) by linarith
  then show ?thesis
    using getitem_loop_past[OF Charset_ok[OF assms(1)], of index] assms(2)
    by (simp add: Charset_getitem_def Charset_len_def)
qed

theorem Charset_getitem_past_end_witness:
  "Charset [pystr ''a-d'', pystr ''%20'']
     = Inr \<lparr>pieces = [CharRange 97 100, Block (pystr ''%20'')], sizes = [3, 1]\<rparr>
   \<and> Charset_len \<lparr>pieces = [CharRange 97 100, Block (pystr ''%20'')], sizes = [3, 1]\<rparr> \<le> 7
   \<and> Charset_getitem \<lparr>pieces = [CharRange 97 100, Block (pystr ''%20'')], sizes = [3, 1]\<rparr> 7
       = Inr None"
proof -
  let ?cs = "\<lparr>pieces = [CharRange 97 100, Block (pystr ''%20'')], sizes = [3, 1]\<rparr>"
  have c: "Charset [pystr ''a-d'', pystr ''%20''] = Inr ?cs"
    by (simp add: charset_eval)
  have l: "Charset_len ?cs \<le> 7" by (simp add: charset_eval)
  from Charset_getitem_past_end[OF c l] c l show ?thesis by simp
qed

text \<open>
  C10. For a charset built by the constructor and every negative index, the index is
  remapped to \<open>len(charset) - index\<close>, which is at least \<open>len(charset) + 1\<close>, and indexed
  access returns \<open>None\<close>: a negative index never reaches a symbol.
\<close>

theorem Charset_getitem_negative:
  assumes "Charset ps = Inr cs" and "index < 0"
  shows "Charset_len cs + 1 \<le> Charset_len cs - index \<and> Charset_getitem cs index = Inr None"
proof
  show "Charset_len cs + 1 \<le> Charset_len cs - index" using assms(2) by linarith
  have "sum_list (sizes cs) \<le> sum_list (sizes cs) - index" using assms(2) by linarith
  from getitem_loop_past[OF Charset_ok[OF assms(1)] this] assms(2)
  show "Charset_getitem cs index = Inr None"
    by (simp add: Charset_getitem_def Charset_len_def)
qed

theorem Charset_getitem_negative_witness:
  "Charset [pystr ''a-d'', pystr ''%20'']
     = Inr \<lparr>pieces = [CharRange 97 100, Block (pystr ''%20'')], sizes = [3, 1]\<rparr>
   \<and> (- 1 :: int) < 0
   \<and> Charset_getitem \<lparr>pieces = [CharRange 97 100, Block (pystr ''%20'')], sizes = [3, 1]\<rparr> (- 1)
       = Inr None"
proof -
  let ?cs = "\<lparr>pieces = [CharRange 97 100, Block (pystr ''%20'')], sizes = [3, 1]\<rparr>"
  have c: "Charset [pystr ''a-d'', pystr ''%20''] = Inr ?cs"
    by (simp add: charset_eval)
  have n: "(- 1 :: int) < 0" by simp
  from Charset_getitem_negative[OF c n] c show ?thesis by simp
qed

text \<open>
  The characters of the symbols lie below every bound on the characters of the pieces:
  \<open>chr\<close> is only applied within the range of Python's characters.
\<close>

lemma match_chars:
  "PIECE_PATTERN_match piece = Some (Groups12 c1 c2) \<Longrightarrow> c1 \<in> set piece \<and> c2 \<in> set piece"
  "PIECE_PATTERN_match piece = Some (Group3 body) \<Longrightarrow> c \<in> set body \<Longrightarrow> c \<in> set piece"
  by (auto simp: PIECE_PATTERN_match_def PIECE_PATTERN_group3_def Let_def
      split: list.splits if_splits dest: set_takeWhileD)

lemma Charset_add_below:
  assumes "Charset_add piece self = Inr self'" and "list_all (piece_below B) (pieces self)"
    and "\<forall>c\<in>set piece. c < B"
  shows "list_all (piece_below B) (pieces self')"
proof (cases "PIECE_PATTERN_match piece")
  case None
  then show ?thesis using assms by (simp add: Charset_add_def)
next
  case (Some m)
  show ?thesis
  proof (cases m)
    case (Groups12 c1 c2)
    with Some match_chars(1)[of piece c1 c2] assms show ?thesis
      by (auto simp: Charset_add_def list_all_iff split: if_splits)
  next
    case (Group3 body)
    with Some match_chars(2)[of piece body] assms show ?thesis
      by (fastforce simp: Charset_add_def list_all_iff)
  qed
qed

lemma Charset_loop_below:
  "Charset_loop ps self = Inr cs \<Longrightarrow> list_all (piece_below B) (pieces self) \<Longrightarrow>
   \<forall>p\<in>set ps. \<forall>c\<in>set p. c < B \<Longrightarrow> list_all (piece_below B) (pieces cs)"
proof (induction ps arbitrary: self)
  case Nil
  then show ?case by simp
next
  case (Cons p ps)
  then show ?case by (auto split: sum.splits dest: Charset_add_below)
qed

lemma piece_iter_below:
  "piece_below B p \<Longrightarrow> s \<in> set (piece_iter p) \<Longrightarrow> c \<in> set s \<Longrightarrow> c < B"
  by (cases p) (auto simp: list_all_iff py_range_def py_ord_def py_chr_def)

lemma Charset_iter_bounded:
  assumes "Charset ps = Inr cs" and "\<forall>p\<in>set ps. \<forall>c\<in>set p. c < B"
  shows "\<forall>s\<in>set (Charset_iter cs). \<forall>c\<in>set s. c < B"
proof -
  have "list_all (piece_below B) (pieces cs)"
    using Charset_loop_below[of ps _ cs B] assms by (simp add: Charset_def)
  then show ?thesis
    by (auto simp: Charset_iter_def list_all_iff dest: piece_iter_below)
qed

section \<open>Properties of CharsetGenerator\<close>

lemma product_length: "length (product xs n) = length xs ^ n"
proof (induction n)
  case 0
  then show ?case by simp
next
  case (Suc n)
  have "length (concat (map (\<lambda>x. map ((#) x) yss) xs)) = length xs * length yss"
    for yss :: "'a list list"
    by (induction xs) auto
  then show ?case using Suc by simp
qed

lemma product_set: "set (product xs n) = {ys. length ys = n \<and> set ys \<subseteq> set xs}"
proof (induction n)
  case 0
  then show ?case by auto
next
  case (Suc n)
  show ?case
  proof (intro set_eqI iffI)
    fix ys assume "ys \<in> set (product xs (Suc n))"
    then show "ys \<in> {ys. length ys = Suc n \<and> set ys \<subseteq> set xs}"
      using Suc by auto
  next
    fix ys assume "ys \<in> {ys. length ys = Suc n \<and> set ys \<subseteq> set xs}"
    then obtain y zs where "ys = y # zs" "length zs = n" "y \<in> set xs" "set zs \<subseteq> set xs"
      by (cases ys) auto
    then show "ys \<in> set (product xs (Suc n))" using Suc by auto
  qed
qed

lemma product_distinct: "distinct xs \<Longrightarrow> distinct (product xs n)"
proof (induction n)
  case 0
  then show ?case by simp
next
  case (Suc n)
  have "distinct (concat (map (\<lambda>x. map ((#) x) yss) xs))" if "distinct yss" "distinct xs" for yss :: "'a list list" and xs
    using that by (induction xs) (auto simp: distinct_map)
  then show ?case using Suc by simp
qed

lemma concat_singletons_inj:
  assumes "\<forall>y\<in>set ys. length y = 1" "\<forall>z\<in>set zs. length z = 1" "concat ys = concat zs"
  shows "ys = zs"
  using assms
proof (induction ys arbitrary: zs)
  case Nil
  then show ?case by (cases zs) (auto simp: length_Suc_conv)
next
  case (Cons y ys)
  then obtain a where y: "y = [a]" by (auto simp: length_Suc_conv)
  show ?case
  proof (cases zs)
    case Nil
    then show ?thesis using Cons.prems y by simp
  next
    case (Cons z zs')
    then obtain b where "z = [b]" using Cons.prems(2) by (auto simp: length_Suc_conv)
    then show ?thesis using Cons Cons.prems y Cons.IH[of zs'] by auto
  qed
qed

lemma concat_singletons_length: "\<forall>y\<in>set ys. length y = 1 \<Longrightarrow> length (concat ys) = length ys"
  by (induction ys) auto


lemma level_length: "length (level cs l) = length (Charset_iter cs) ^ l"
  by (simp add: level_def product_length)

lemma level_elem:
  "s \<in> set (level cs l) \<Longrightarrow> \<exists>syms. length syms = l \<and> set syms \<subseteq> set (Charset_iter cs) \<and> s = concat syms"
  by (auto simp: level_def product_set)

lemma level_elem_length:
  assumes "\<forall>sym\<in>set (Charset_iter cs). length sym = 1" "s \<in> set (level cs l)"
  shows "length s = l"
proof -
  from level_elem[OF assms(2)] obtain syms where
    "length syms = l" "set syms \<subseteq> set (Charset_iter cs)" "s = concat syms" by blast
  then show ?thesis using assms(1) concat_singletons_length[of syms] by auto
qed

lemma level_distinct:
  assumes "\<forall>sym\<in>set (Charset_iter cs). length sym = 1" "distinct (Charset_iter cs)"
  shows "distinct (level cs l)"
proof -
  have "inj_on concat (set (product (Charset_iter cs) l))"
    using assms(1) by (intro inj_onI concat_singletons_inj) (auto simp: product_set)
  then show ?thesis using product_distinct[OF assms(2)] by (simp add: level_def distinct_map)
qed

lemma levels_length:
  "length (concat (map (level cs) [m..<m + k])) = (\<Sum>l = m..<m + k. length (Charset_iter cs) ^ l)"
  by (induction k) (auto simp: level_length)

lemma levels_elem:
  "s \<in> set (concat (map (level cs) [m..<n])) \<Longrightarrow> \<exists>l. m \<le> l \<and> l < n \<and> s \<in> set (level cs l)"
  by auto

lemma levels_distinct:
  assumes "\<forall>sym\<in>set (Charset_iter cs). length sym = 1" "distinct (Charset_iter cs)"
  shows "distinct (concat (map (level cs) [m..<m + k]))"
proof (induction k)
  case 0
  then show ?case by simp
next
  case (Suc k)
  have "set (concat (map (level cs) [m..<m + k])) \<inter> set (level cs (m + k)) = {}"
  proof (rule ccontr)
    assume "\<not> ?thesis"
    then obtain s where s: "s \<in> set (concat (map (level cs) [m..<m + k]))" "s \<in> set (level cs (m + k))"
      by blast
    from levels_elem[OF s(1)] obtain l where "l < m + k" "s \<in> set (level cs l)" by blast
    then have "length s = l" "l < m + k" using level_elem_length[OF assms(1)] by auto
    moreover have "length s = m + k" using level_elem_length[OF assms(1) s(2)] .
    ultimately show False by simp
  qed
  then show ?case using Suc level_distinct[OF assms] by simp
qed

lemma gen_levels: "CharsetGenerator_iter g = concat (map (level (gen_chars g)) [mi g..<ma g + 1])"
proof -
  have "level (gen_chars g) = (\<lambda>l. map concat (product (Charset_iter (gen_chars g)) l))"
    by (rule ext) (simp add: level_def)
  then show ?thesis unfolding CharsetGenerator_iter_def by simp
qed

text \<open>
  C7 as stated does not hold: a block of several characters is one symbol. For the
  charset \<open>ab,a,b\<close> and lengths 1 to 2 the generator yields \<open>ab\<close> twice (as the symbol
  \<open>ab\<close> and as the symbols \<open>a\<close>, \<open>b\<close>) and yields \<open>abab\<close>, which has four characters.
\<close>

theorem CharsetGenerator_iter_counterexample:
  "Charset [pystr ''ab'', pystr ''a'', pystr ''b'']
     = Inr \<lparr>pieces = [Block (pystr ''ab''), Block (pystr ''a''), Block (pystr ''b'')],
            sizes = [1, 1, 1]\<rparr>
   \<and> CharsetGenerator_iter
        \<lparr>gen_chars = \<lparr>pieces = [Block (pystr ''ab''), Block (pystr ''a''), Block (pystr ''b'')],
                      sizes = [1, 1, 1]\<rparr>, mi = 1, ma = 2\<rparr>
     = [pystr ''ab'', pystr ''a'', pystr ''b'',
        pystr ''abab'', pystr ''aba'', pystr ''abb'',
        pystr ''aab'', pystr ''aa'', pystr ''ab'',
        pystr ''bab'', pystr ''ba'', pystr ''bb'']
   \<and> \<not> distinct (CharsetGenerator_iter
        \<lparr>gen_chars = \<lparr>pieces = [Block (pystr ''ab''), Block (pystr ''a''), Block (pystr ''b'')],
                      sizes = [1, 1, 1]\<rparr>, mi = 1, ma = 2\<rparr>)
   \<and> \<not> length (pystr ''abab'') \<le> 2"
  by (simp add: charset_eval CharsetGenerator_iter_def numeral_2_eq_2)

text \<open>
  C7, amended. For a charset built by the constructor and \<open>m \<le> M\<close>, the generator
  yields exactly \<open>\<Sum>l = m..M. len(charset) ^ l\<close> strings, repetitions counted; each is
  the concatenation of \<open>l\<close> symbols of the charset for some \<open>l\<close> from \<open>m\<close> to \<open>M\<close>; when
  every symbol is one character long, each string has between \<open>m\<close> and \<open>M\<close>
  characters; and when moreover the symbols are pairwise distinct, no string is
  yielded twice.
\<close>

theorem CharsetGenerator_iter_amended:
  assumes "Charset ps = Inr cs" and "m \<le> M"
  shows "length (CharsetGenerator_iter \<lparr>gen_chars = cs, mi = m, ma = M\<rparr>)
           = (\<Sum>l = m..M. nat (Charset_len cs) ^ l)
       \<and> (\<forall>s \<in> set (CharsetGenerator_iter \<lparr>gen_chars = cs, mi = m, ma = M\<rparr>).
             \<exists>l syms. m \<le> l \<and> l \<le> M \<and> length syms = l \<and> set syms \<subseteq> set (Charset_iter cs)
                 \<and> s = concat syms)
       \<and> ((\<forall>sym \<in> set (Charset_iter cs). length sym = 1) \<longrightarrow>
            (\<forall>s \<in> set (CharsetGenerator_iter \<lparr>gen_chars = cs, mi = m, ma = M\<rparr>).
               m \<le> length s \<and> length s \<le> M))
       \<and> ((\<forall>sym \<in> set (Charset_iter cs). length sym = 1) \<and> distinct (Charset_iter cs) \<longrightarrow>
            distinct (CharsetGenerator_iter \<lparr>gen_chars = cs, mi = m, ma = M\<rparr>))"
proof -
  let ?g = "\<lparr>gen_chars = cs, mi = m, ma = M\<rparr>"
  obtain k where k: "M + 1 = m + k" using assms(2) by (metis le_Suc_eq le_iff_add Suc_eq_plus1)
  have g: "CharsetGenerator_iter ?g = concat (map (level cs) [m..<m + k])"
    using k by (simp add: gen_levels)
  have len: "length (Charset_iter cs) = nat (Charset_len cs)"
    using Charset_iter_length[OF assms(1)] by linarith
  have "{m..<m + k} = {m..M}" using k by auto
  then have 1: "length (CharsetGenerator_iter ?g) = (\<Sum>l = m..M. nat (Charset_len cs) ^ l)"
    unfolding g levels_length len by simp
  have 2: "\<exists>l syms. m \<le> l \<and> l \<le> M \<and> length syms = l \<and> set syms \<subseteq> set (Charset_iter cs) \<and> s = concat syms"
    if "s \<in> set (CharsetGenerator_iter ?g)" for s
  proof -
    from that levels_elem[of s cs m "m + k"] obtain l where l: "m \<le> l" "l < m + k" "s \<in> set (level cs l)"
      unfolding g by blast
    from level_elem[OF l(3)] l(1,2) k show ?thesis by (metis Suc_eq_plus1 less_Suc_eq_le)
  qed
  have 3: "m \<le> length s \<and> length s \<le> M"
    if "\<forall>sym \<in> set (Charset_iter cs). length sym = 1" "s \<in> set (CharsetGenerator_iter ?g)" for s
  proof -
    from that(2) levels_elem[of s cs m "m + k"] obtain l where l: "m \<le> l" "l < m + k" "s \<in> set (level cs l)"
      unfolding g by blast
    from level_elem_length[OF that(1) l(3)] l(1,2) k show ?thesis by linarith
  qed
  have 4: "distinct (CharsetGenerator_iter ?g)"
    if "\<forall>sym \<in> set (Charset_iter cs). length sym = 1" "distinct (Charset_iter cs)"
    unfolding g using that by (rule levels_distinct)
  from 1 2 3 4 show ?thesis by blast
qed


theorem CharsetGenerator_iter_amended_witness:
  "Charset [pystr ''a-d''] = Inr \<lparr>pieces = [CharRange 97 100], sizes = [3]\<rparr>
   \<and> (1::nat) \<le> 2
   \<and> Charset_iter \<lparr>pieces = [CharRange 97 100], sizes = [3]\<rparr>
       = [pystr ''a'', pystr ''b'', pystr ''c'']
   \<and> length (CharsetGenerator_iter
        \<lparr>gen_chars = \<lparr>pieces = [CharRange 97 100], sizes = [3]\<rparr>, mi = 1, ma = 2\<rparr>) = 12
   \<and> list_all (\<lambda>s. 1 \<le> length s \<and> length s \<le> 2) (CharsetGenerator_iter
        \<lparr>gen_chars = \<lparr>pieces = [CharRange 97 100], sizes = [3]\<rparr>, mi = 1, ma = 2\<rparr>)
   \<and> distinct (CharsetGenerator_iter
        \<lparr>gen_chars = \<lparr>pieces = [CharRange 97 100], sizes = [3]\<rparr>, mi = 1, ma = 2\<rparr>)"
proof -
  let ?cs = "\<lparr>pieces = [CharRange 97 100], sizes = [3]\<rparr>"
  have c: "Charset [pystr ''a-d''] = Inr ?cs" by (simp add: charset_eval)
  have m: "(1::nat) \<le> 2" by simp
  have it: "Charset_iter ?cs = [pystr ''a'', pystr ''b'', pystr ''c'']"
    by (simp add: charset_eval upto.simps)
  have one: "\<forall>sym \<in> set (Charset_iter ?cs). length sym = 1" by (simp add: it pystr_def)
  have dist: "distinct (Charset_iter ?cs)" by (simp add: it pystr_def)
  have l: "Charset_len ?cs = 3" by (simp add: charset_eval)
  have sum: "(\<Sum>l = 1..2. nat (Charset_len ?cs) ^ l) = (12::nat)"
    by (simp add: l numeral_2_eq_2)
  from CharsetGenerator_iter_amended[OF c m] one dist sum
  have "length (CharsetGenerator_iter \<lparr>gen_chars = ?cs, mi = 1, ma = 2\<rparr>) = 12"
    and "\<forall>s \<in> set (CharsetGenerator_iter \<lparr>gen_chars = ?cs, mi = 1, ma = 2\<rparr>).
           1 \<le> length s \<and> length s \<le> 2"
    and "distinct (CharsetGenerator_iter \<lparr>gen_chars = ?cs, mi = 1, ma = 2\<rparr>)"
    by simp_all
  then show ?thesis using c it by (simp add: list_all_iff)
qed

section \<open>Properties of the command\<close>

lemmas session_eval =
  start_state_def HBusterSession_def hbuster_extensions_def hbuster_range_def hbuster_host_def
  hbuster_def truthy_def addFile_def task_step_def task_loop.simps task_resume_def testPath_def
  pystr_def strip_def isspace_def pop_def all_returned_def Let_def

text \<open>Whatever the option holds, the session gets the same two extensions.\<close>

lemma hbuster_extensions_constant: "hbuster_extensions e = [pystr '''', pystr ''.'']"
  by (simp add: hbuster_extensions_def pystr_def)

text \<open>
  C4. Each tested path should be tried with the empty extension and then with each
  configured extension after a dot. The code overwrites the option before it reads it:
  with \<open>php\<close> configured the extension list of the session is \<open>''\<close>, \<open>'.'\<close>, and
  \<open>.php\<close> is never tried.
\<close>

theorem hbuster_extensions_code:
  "hbuster_extensions (Some (pystr ''php'')) = [pystr '''', pystr ''.'']
   \<and> hbuster_extensions (Some (pystr ''php'')) \<noteq> [pystr '''', pystr ''.php'']
   \<and> map_sum id extensions
        (hbuster 1 None \<lparr>pieces = [CharRange 97 100], sizes = [3]\<rparr> 1 1 False
           (Some (pystr ''php'')) (pystr ''200'') (pystr ''http://h'') [])
       = Inr [pystr '''', pystr ''.'']"
  by (simp add: session_eval)

text \<open>Without a word list no pair of lengths is refused.\<close>

lemma hbuster_range_generator: "hbuster_range None mn mx = Inr ()"
  by (simp add: hbuster_range_def truthy_def)

text \<open>
  C5. The check of the minimum against the maximum should be made exactly when no
  word list is given. The code tests \<open>dirlist and min > max\<close>: without a word list a
  minimum of 2 and a maximum of 1 pass and the session is built; with a word list the
  same values are refused.
\<close>

theorem hbuster_range_code:
  "hbuster_range None 2 1 = Inr ()
   \<and> hbuster_range (Some (pystr ''words.txt'')) 2 1 = Inl BadParameter
   \<and> hbuster 1 None \<lparr>pieces = [CharRange 97 100], sizes = [3]\<rparr> 2 1 False
           None (pystr ''200'') (pystr ''http://h'') [] \<noteq> Inl BadParameter
   \<and> hbuster 1 (Some (pystr ''words.txt'')) \<lparr>pieces = [CharRange 97 100], sizes = [3]\<rparr> 2 1 False
           None (pystr ''200'') (pystr ''http://h'') [pystr ''a''] = Inl BadParameter"
  by (simp add: session_eval)

section \<open>Properties of the session\<close>

text \<open>
  No integer is in the \<open>validStatus\<close> of a session built by the constructor, so
  \<open>testPath\<close> answers False to every integer status code.
\<close>

lemma integer_status_never_valid:
  "IntV n \<notin> validStatus (HBusterSession tasks dl cs mn mx r exts status h lines)"
  by (auto simp: HBusterSession_def addFile_def Let_def)

lemma testPath_integer_False:
  "get (host self @ path) = Inr (IntV n) \<Longrightarrow>
   self = HBusterSession tasks dl cs mn mx r exts status h lines \<Longrightarrow>
   testPath get self path = Inr (False, self)"
  using integer_status_never_valid[of n tasks dl cs mn mx r exts status h lines]
  by (simp add: testPath_def)

text \<open>
  C2. A path whose reported status code is in the configured set should be recorded
  in \<open>found\<close>. \<open>validStatus\<close> holds the strings between the commas of the option, and
  an integer is never equal to a string: with the default option \<open>200\<close> and the status
  code 200, \<open>testPath\<close> returns False and records nothing, and a whole run finds
  nothing.
\<close>

theorem testPath_integer_status:
  "validStatus (HBusterSession 1 (Some (pystr ''words.txt'')) \<lparr>pieces = [CharRange 97 100], sizes = [3]\<rparr>
       1 8 False [pystr '''', pystr ''.''] (pystr ''200'') (pystr ''http://h'') [pystr ''a''])
     = {StrV (pystr ''200'')}
   \<and> testPath (\<lambda>url. Inr (IntV 200))
       (HBusterSession 1 (Some (pystr ''words.txt'')) \<lparr>pieces = [CharRange 97 100], sizes = [3]\<rparr>
          1 8 False [pystr '''', pystr ''.''] (pystr ''200'') (pystr ''http://h'') [pystr ''a''])
       (pystr ''/a'')
     = Inr (False,
        HBusterSession 1 (Some (pystr ''words.txt'')) \<lparr>pieces = [CharRange 97 100], sizes = [3]\<rparr>
          1 8 False [pystr '''', pystr ''.''] (pystr ''200'') (pystr ''http://h'') [pystr ''a''])
   \<and> map_sum id (\<lambda>st. (fst st, found (snd st)))
       (gather (\<lambda>url. Inr (IntV 200)) [0, 0, 0]
         (start_state
           (HBusterSession 1 (Some (pystr ''words.txt'')) \<lparr>pieces = [CharRange 97 100], sizes = [3]\<rparr>
             1 8 False [pystr '''', pystr ''.''] (pystr ''200'') (pystr ''http://h'') [pystr ''a''])))
     = Inr ([Returned], [])"
  by (simp add: session_eval)


subsection \<open>The loop of a task\<close>

lemma task_loop_cases [case_names Empty NoFile Exhausted Skip Test]:
  obtains
    (Empty) "workPools s = []" "task_loop tid s = (Returned, s)"
  | (NoFile) "workPools s \<noteq> []" "length (poolFiles s) \<le> tid mod length (workPools s)"
      "task_loop tid s = (Raised IndexError, s)"
  | (Exhausted) j where "j = tid mod length (workPools s)" "j < length (workPools s)"
      "j < length (poolFiles s)" "poolFiles s ! j = []"
      "task_loop tid s = task_loop tid (job_pop j s)"
  | (Skip) j line rest where "j = tid mod length (workPools s)" "j < length (workPools s)"
      "j < length (poolFiles s)" "poolFiles s ! j = line # rest"
      "task_loop tid s = task_loop tid (job_next j rest s)"
  | (Test) j line rest fileExt exts where "j = tid mod length (workPools s)"
      "j < length (workPools s)" "j < length (poolFiles s)" "poolFiles s ! j = line # rest"
      "extensions s = fileExt # exts"
      "task_loop tid s =
         (InTestPath (workPools s ! j @ pystr ''/'' @ strip line) fileExt exts, job_next j rest s)"
proof (cases "workPools s = []")
  case True
  then show ?thesis using Empty by (simp add: task_loop.simps)
next
  case ne: False
  define j where "j = tid mod length (workPools s)"
  have j: "j < length (workPools s)" using ne by (simp add: j_def)
  show ?thesis
  proof (cases "length (poolFiles s) \<le> j")
    case True
    then show ?thesis using NoFile ne by (simp add: task_loop.simps[of tid s] j_def)
  next
    case lt: False
    show ?thesis
    proof (cases "poolFiles s ! j")
      case Nil
      then show ?thesis using Exhausted[of j] ne lt j
        by (simp add: task_loop.simps[of tid s] j_def job_pop_def Let_def)
    next
      case (Cons line rest)
      show ?thesis
      proof (cases "workPools s ! j @ pystr ''/'' @ strip line \<in> seen s \<or> extensions s = []")
        case True
        then show ?thesis using Skip[of j line rest] ne lt j Cons
          by (auto simp: task_loop.simps[of tid s] j_def job_next_def Let_def)
      next
        case False
        then obtain fileExt exts where "extensions s = fileExt # exts"
          by (cases "extensions s") auto
        then show ?thesis using Test[of j line rest fileExt exts] False ne lt j Cons
          by (auto simp: task_loop.simps[of tid s] j_def job_next_def Let_def)
      qed
    qed
  qed
qed

lemma task_loop_empty: "workPools s = [] \<Longrightarrow> task_loop tid s = (Returned, s)"
  by (simp add: task_loop.simps)

lemma pool_work_job_pop: "j < length (workPools s) \<Longrightarrow> pool_work (job_pop j s) < pool_work s"
  using length_pop[of j "workPools s"] sum_list_length_pop[of j "poolFiles s"]
  by (simp add: pool_work_def job_pop_def)

lemma lines_left_job_pop: "lines_left (job_pop j s) \<le> lines_left s"
  using sum_list_length_pop[of j "poolFiles s"] by (simp add: lines_left_def job_pop_def)

lemma lines_left_job_next:
  "j < length (poolFiles s) \<Longrightarrow> poolFiles s ! j = line # rest \<Longrightarrow>
   Suc (lines_left (job_next j rest s)) = lines_left s"
  using sum_list_length_update[of j "poolFiles s" line rest]
  by (simp add: lines_left_def job_next_def)

lemma pool_work_job_next:
  "j < length (poolFiles s) \<Longrightarrow> poolFiles s ! j = line # rest \<Longrightarrow>
   pool_work (job_next j rest s) < pool_work s"
  using sum_list_length_update[of j "poolFiles s" line rest]
  by (simp add: pool_work_def job_next_def)



text \<open>What the loop leaves unchanged, what it does to the jobs, and how it ends.\<close>

lemma task_loop_fields:
  "task_loop tid s = (t, s') \<Longrightarrow>
     extensions s' = extensions s \<and> recursive s' = recursive s \<and>
     validStatus s' = validStatus s \<and> seen s' = seen s"
proof (induction "pool_work s" arbitrary: s rule: less_induct)
  case less
  show ?case
  proof (cases rule: task_loop_cases[of s tid])
    case Empty
    then show ?thesis using less.prems by auto
  next
    case NoFile
    then show ?thesis using less.prems by auto
  next
    case (Exhausted j)
    have "task_loop tid (job_pop j s) = (t, s')" using Exhausted less.prems by simp
    from less.hyps[OF pool_work_job_pop[OF Exhausted(2)] this]
    show ?thesis by (simp add: job_pop_def)
  next
    case (Skip j line rest)
    have "task_loop tid (job_next j rest s) = (t, s')" using Skip less.prems by simp
    from less.hyps[OF pool_work_job_next[OF Skip(3,4)] this]
    show ?thesis by (simp add: job_next_def)
  next
    case (Test j line rest fileExt exts)
    then show ?thesis using less.prems by (auto simp: job_next_def)
  qed
qed


lemma task_loop_end:
  "task_loop tid s = (t, s') \<Longrightarrow>
     lines_left s' \<le> lines_left s \<and>
     ((t = Returned \<and> workPools s' = []) \<or>
      (t = Raised IndexError \<and> length (workPools s) \<noteq> length (poolFiles s)) \<or>
      (\<exists>path fileExt exts. t = InTestPath path fileExt exts \<and> extensions s = fileExt # exts
          \<and> lines_left s' < lines_left s))"
proof (induction "pool_work s" arbitrary: s rule: less_induct)
  case less
  show ?case
  proof (cases rule: task_loop_cases[of s tid])
    case Empty
    then show ?thesis using less.prems by auto
  next
    case NoFile
    have "tid mod length (workPools s) < length (workPools s)" using NoFile(1) by simp
    then have "length (poolFiles s) < length (workPools s)" using NoFile(2) by linarith
    then show ?thesis using NoFile(3) less.prems by auto
  next
    case (Exhausted j)
    have "task_loop tid (job_pop j s) = (t, s')" using Exhausted less.prems by simp
    from less.hyps[OF pool_work_job_pop[OF Exhausted(2)] this] lines_left_job_pop[of j s]
    show ?thesis using Exhausted(2,3) by (auto simp: job_pop_def pop_def)
  next
    case (Skip j line rest)
    have "task_loop tid (job_next j rest s) = (t, s')" using Skip less.prems by simp
    from less.hyps[OF pool_work_job_next[OF Skip(3,4)] this] lines_left_job_next[OF Skip(3,4)]
    show ?thesis by (auto simp: job_next_def)
  next
    case (Test j line rest fileExt exts)
    then show ?thesis using less.prems lines_left_job_next[OF Test(3,4)]
      by (auto simp: job_next_def)
  qed
qed

lemma task_loop_parallel:
  "task_loop tid s = (t, s') \<Longrightarrow> length (workPools s) = length (poolFiles s) \<Longrightarrow>
     length (workPools s') = length (poolFiles s')"
proof (induction "pool_work s" arbitrary: s rule: less_induct)
  case less
  show ?case
  proof (cases rule: task_loop_cases[of s tid])
    case Empty
    then show ?thesis using less.prems by auto
  next
    case NoFile
    then show ?thesis using less.prems by auto
  next
    case (Exhausted j)
    have "task_loop tid (job_pop j s) = (t, s')" using Exhausted less.prems by simp
    moreover have "length (workPools (job_pop j s)) = length (poolFiles (job_pop j s))"
      using less.prems(2) Exhausted(2,3) by (simp add: job_pop_def pop_def)
    ultimately show ?thesis using less.hyps[OF pool_work_job_pop[OF Exhausted(2)]] by blast
  next
    case (Skip j line rest)
    have "task_loop tid (job_next j rest s) = (t, s')" using Skip less.prems by simp
    moreover have "length (workPools (job_next j rest s)) = length (poolFiles (job_next j rest s))"
      using less.prems(2) by (simp add: job_next_def)
    ultimately show ?thesis using less.hyps[OF pool_work_job_next[OF Skip(3,4)]] by blast
  next
    case (Test j line rest fileExt exts)
    then show ?thesis using less.prems by (auto simp: job_next_def)
  qed
qed

subsection \<open>Jobs and \<open>seen\<close>\<close>










subsection \<open>Exceptions of a path test\<close>

lemma task_step_length: "length (fst (task_step get tid st)) = length (fst st)"
  by (cases st; cases "fst st ! tid")
     (auto simp: task_step_def Let_def split: prod.splits)

lemma task_step_raised:
  assumes "k < length (fst st)" and "fst st ! k = Raised e"
  shows "fst (task_step get tid st) ! k = Raised e"
proof (cases "tid = k")
  case True
  then show ?thesis using assms by (cases st) (simp add: task_step_def)
next
  case False
  then show ?thesis using assms
    by (cases st; cases "fst st ! tid")
       (auto simp: task_step_def Let_def split: prod.splits)
qed

lemma run_raised:
  "k < length (fst st) \<Longrightarrow> fst st ! k = Raised e \<Longrightarrow> fst (run get order st) ! k = Raised e"
proof (induction order arbitrary: st)
  case Nil
  then show ?case by simp
next
  case (Cons tid order)
  have "k < length (fst (task_step get tid st))" using Cons.prems(1) by (simp add: task_step_length)
  moreover have "fst (task_step get tid st) ! k = Raised e"
    using Cons.prems by (rule task_step_raised)
  ultimately show ?case using Cons.IH by simp
qed

text \<open>
  C3 as stated (a transport error counts as a path that is not valid, and the run goes
  on) does not hold: with one task over the word list \<open>a\<close>, \<open>b\<close>, the transport error
  that answers the first request leaves the task, and the run ends with it.
\<close>

theorem transport_error_counterexample:
  "fst (run (\<lambda>url. Inl TransportError) [0, 0]
       (start_state
         (HBusterSession 1 (Some (pystr ''words.txt'')) \<lparr>pieces = [CharRange 97 100], sizes = [3]\<rparr>
            1 8 False [pystr '''', pystr ''.''] (pystr ''200'') (pystr ''http://h'')
            [pystr ''a'', pystr ''b''])))
     = [Raised TransportError]
   \<and> gather (\<lambda>url. Inl TransportError) [0, 0]
       (start_state
         (HBusterSession 1 (Some (pystr ''words.txt'')) \<lparr>pieces = [CharRange 97 100], sizes = [3]\<rparr>
            1 8 False [pystr '''', pystr ''.''] (pystr ''200'') (pystr ''http://h'')
            [pystr ''a'', pystr ''b''])) = Inl TransportError"
  by (simp add: session_eval)

text \<open>
  C3, amended. A path test that raises a transport error is not caught: the error
  leaves \<open>testPath\<close> and the task, and \<open>asyncio.gather\<close> raises it to \<open>start\<close>, so the run
  ends with it. The attempt records nothing: the session is as it was before the
  attempt. It is not retried: the task has raised and stays so, whatever client and
  order of resumption follow.
\<close>

theorem transport_error_aborts:
  assumes "tid < length tasks" and "tasks ! tid = InTestPath path fileExt exts"
    and "get (host self @ path @ fileExt) = Inl e"
  shows "testPath get self (path @ fileExt) = Inl e
       \<and> task_step get tid (tasks, self) = (tasks[tid := Raised e], self)
       \<and> gather get (tid # order) (tasks, self) = Inl e
       \<and> task_step get' tid (task_step get tid (tasks, self)) = task_step get tid (tasks, self)
       \<and> fst (run get' order' (task_step get tid (tasks, self))) ! tid = Raised e"
proof -
  have tp: "testPath get self (path @ fileExt) = Inl e"
    using assms(3) by (simp add: testPath_def)
  then have ts: "task_step get tid (tasks, self) = (tasks[tid := Raised e], self)"
    using assms(1,2) by (simp add: task_step_def task_resume_def)
  have g: "gather get (tid # order) (tasks, self) = Inl e"
    using assms(1) by (simp add: ts)
  have k: "tid < length (fst (tasks[tid := Raised e], self))"
    and r: "fst (tasks[tid := Raised e], self) ! tid = Raised e"
    using assms(1) by simp_all
  have again: "task_step get' tid (tasks[tid := Raised e], self) = (tasks[tid := Raised e], self)"
    using assms(1) by (simp add: task_step_def)
  from tp ts g again run_raised[OF k r, of get' order'] show ?thesis by simp
qed

theorem transport_error_aborts_witness:
  "(0::nat) < length [InTestPath (pystr ''/a'') (pystr '''') [pystr ''.'']]
   \<and> [InTestPath (pystr ''/a'') (pystr '''') [pystr ''.'']] ! 0
       = InTestPath (pystr ''/a'') (pystr '''') [pystr ''.'']
   \<and> task_step (\<lambda>url. Inl TransportError) 0
       ([InTestPath (pystr ''/a'') (pystr '''') [pystr ''.'']],
        HBusterSession 1 (Some (pystr ''words.txt'')) \<lparr>pieces = [CharRange 97 100], sizes = [3]\<rparr>
            1 8 False [pystr '''', pystr ''.''] (pystr ''200'') (pystr ''http://h'')
            [pystr ''a'', pystr ''b''])
     = ([Raised TransportError],
        HBusterSession 1 (Some (pystr ''words.txt'')) \<lparr>pieces = [CharRange 97 100], sizes = [3]\<rparr>
            1 8 False [pystr '''', pystr ''.''] (pystr ''200'') (pystr ''http://h'')
            [pystr ''a'', pystr ''b''])
   \<and> gather (\<lambda>url. Inl TransportError) [0, 0]
       ([InTestPath (pystr ''/a'') (pystr '''') [pystr ''.'']],
        HBusterSession 1 (Some (pystr ''words.txt'')) \<lparr>pieces = [CharRange 97 100], sizes = [3]\<rparr>
            1 8 False [pystr '''', pystr ''.''] (pystr ''200'') (pystr ''http://h'')
            [pystr ''a'', pystr ''b''])
     = Inl TransportError
   \<and> fst (run (\<lambda>url. Inl TypeError) [0, 0]
       (task_step (\<lambda>url. Inl TransportError) 0
         ([InTestPath (pystr ''/a'') (pystr '''') [pystr ''.'']],
          HBusterSession 1 (Some (pystr ''words.txt'')) \<lparr>pieces = [CharRange 97 100], sizes = [3]\<rparr>
            1 8 False [pystr '''', pystr ''.''] (pystr ''200'') (pystr ''http://h'')
            [pystr ''a'', pystr ''b'']))) ! 0
     = Raised TransportError"
proof -
  let ?get = "\<lambda>url. Inl TransportError :: error + pyval"
  let ?later = "\<lambda>url. Inl TypeError :: error + pyval"
  let ?self = "HBusterSession 1 (Some (pystr ''words.txt'')) \<lparr>pieces = [CharRange 97 100], sizes = [3]\<rparr>
            1 8 False [pystr '''', pystr ''.''] (pystr ''200'') (pystr ''http://h'')
            [pystr ''a'', pystr ''b'']"
  let ?tasks = "[InTestPath (pystr ''/a'') (pystr '''') [pystr ''.'']]"
  have 1: "(0::nat) < length ?tasks" by simp
  have 2: "?tasks ! 0 = InTestPath (pystr ''/a'') (pystr '''') [pystr ''.'']" by simp
  have 3: "?get (host ?self @ pystr ''/a'' @ pystr '''') = Inl TransportError" by simp
  from transport_error_aborts[where tid=0 and tasks="?tasks" and path="pystr ''/a''"
      and fileExt="pystr ''''" and exts="[pystr ''.'']" and get="?get" and self="?self"
      and e=TransportError and order="[0]" and get'="?later" and order'="[0, 0]",
      OF 1 2 3]
  have a: "task_step ?get 0 (?tasks, ?self) = (?tasks[0 := Raised TransportError], ?self)"
    and b: "gather ?get [0, 0] (?tasks, ?self) = Inl TransportError"
    and c: "fst (run ?later [0, 0] (task_step ?get 0 (?tasks, ?self))) ! 0
        = Raised TransportError"
    by blast+
  have "?tasks[0 := Raised TransportError] = [Raised TransportError]" by simp
  with a have a': "task_step ?get 0 (?tasks, ?self) = ([Raised TransportError], ?self)"
    by (simp only:)
  from 1 2 a' b c show ?thesis by blast
qed

subsection \<open>The end of a run\<close>

text \<open>
  C6. With \<open>recursive\<close> off and a finite source the scheduler should end with the jobs
  list empty. With the client that \<open>start\<close> builds, the first request that is answered
  raises TypeError in \<open>testPath\<close> (line 248 calls the integer status of the response):
  with one task over the word list \<open>a\<close>, the task raises in its first path test, and the
  run ends with that exception while the jobs list still holds the root job. A request
  that is not answered ends the run the same way, with a transport error.
\<close>

theorem scheduler_ends_by_exception:
  "fst (run (\<lambda>url. Inl TypeError) [0, 0]
       (start_state
         (HBusterSession 1 (Some (pystr ''words.txt'')) \<lparr>pieces = [CharRange 97 100], sizes = [3]\<rparr>
            1 8 False [pystr '''', pystr ''.''] (pystr ''200'') (pystr ''http://h'')
            [pystr ''a''])))
     = [Raised TypeError]
   \<and> workPools (snd (run (\<lambda>url. Inl TypeError) [0, 0]
       (start_state
         (HBusterSession 1 (Some (pystr ''words.txt'')) \<lparr>pieces = [CharRange 97 100], sizes = [3]\<rparr>
            1 8 False [pystr '''', pystr ''.''] (pystr ''200'') (pystr ''http://h'')
            [pystr ''a'']))))
     = [pystr '''']
   \<and> gather (\<lambda>url. Inl TypeError) [0, 0]
       (start_state
         (HBusterSession 1 (Some (pystr ''words.txt'')) \<lparr>pieces = [CharRange 97 100], sizes = [3]\<rparr>
            1 8 False [pystr '''', pystr ''.''] (pystr ''200'') (pystr ''http://h'')
            [pystr ''a''])) = Inl TypeError
   \<and> workPools (snd (run (\<lambda>url. Inl TransportError) [0, 0]
       (start_state
         (HBusterSession 1 (Some (pystr ''words.txt'')) \<lparr>pieces = [CharRange 97 100], sizes = [3]\<rparr>
            1 8 False [pystr '''', pystr ''.''] (pystr ''200'') (pystr ''http://h'')
            [pystr ''a'']))))
     = [pystr '''']
   \<and> gather (\<lambda>url. Inl TransportError) [0, 0]
       (start_state
         (HBusterSession 1 (Some (pystr ''words.txt'')) \<lparr>pieces = [CharRange 97 100], sizes = [3]\<rparr>
            1 8 False [pystr '''', pystr ''.''] (pystr ''200'') (pystr ''http://h'')
            [pystr ''a''])) = Inl TransportError"
  by (simp add: session_eval)

text \<open>
  What the scheduling itself does, with \<open>recursive\<close> off and any client: every step of a
  task lessens the work that is left, so that every run is finite; the loop of a task
  raises nothing while the two job lists have the same length; and when all tasks have
  returned, the jobs list is empty.
\<close>

lemma task_resume_nonrec_cases [consumes 1, case_names Raise Next Loop]:
  assumes "\<not> recursive s"
  obtains
    (Raise) e where "get (host s @ path @ fileExt) = Inl e"
      "task_resume get tid path fileExt exts s = (Raised e, s)"
  | (Next) fileExt' exts' s3 where "exts = fileExt' # exts'"
      "workPools s3 = workPools s" "poolFiles s3 = poolFiles s"
      "extensions s3 = extensions s" "recursive s3 = recursive s"
      "task_resume get tid path fileExt exts s = (InTestPath path fileExt' exts', s3)"
  | (Loop) s3 where "exts = []"
      "workPools s3 = workPools s" "poolFiles s3 = poolFiles s"
      "extensions s3 = extensions s" "recursive s3 = recursive s"
      "task_resume get tid path fileExt exts s = task_loop tid s3"
proof (cases "get (host s @ path @ fileExt)")
  case (Inl e)
  then show ?thesis using Raise[of e] by (simp add: task_resume_def testPath_def)
next
  case (Inr v)
  define s3 where "s3 = (if v \<in> validStatus s
      then s\<lparr>found := found s @ [host s @ path @ fileExt],
             echoed := echoed s @ [path], requests := requests s + 1\<rparr>
      else s\<lparr>requests := requests s + 1\<rparr>)"
  have f: "workPools s3 = workPools s" "poolFiles s3 = poolFiles s"
    "extensions s3 = extensions s" "recursive s3 = recursive s"
    by (simp_all add: s3_def)
  show ?thesis
  proof (cases exts)
    case Nil
    then have "task_resume get tid path fileExt exts s = task_loop tid s3"
      using Inr assms by (simp add: task_resume_def testPath_def Let_def s3_def)
    then show ?thesis using Loop[of s3] Nil f by simp
  next
    case (Cons fileExt' exts')
    then have "task_resume get tid path fileExt exts s = (InTestPath path fileExt' exts', s3)"
      using Inr assms by (simp add: task_resume_def testPath_def Let_def s3_def)
    then show ?thesis using Next[of fileExt' exts' s3] Cons f by simp
  qed
qed

lemma weight_update:
  "tid < length tasks \<Longrightarrow>
   sum_list (map task_weight (tasks[tid := t])) + task_weight (tasks ! tid)
     = sum_list (map task_weight tasks) + task_weight t"
proof (induction tasks arbitrary: tid)
  case Nil
  then show ?case by simp
next
  case (Cons a tasks)
  then show ?case by (cases tid) auto
qed

lemma task_step_nonrec:
  assumes "tid < length tasks" and "active (tasks ! tid)" and "\<not> recursive s"
  obtains t s' where "task_step get tid (tasks, s) = (tasks[tid := t], s')"
    "extensions s' = extensions s" "\<not> recursive s'"
    "length (workPools s) = length (poolFiles s) \<Longrightarrow> length (workPools s') = length (poolFiles s')"
    "workPools s = [] \<Longrightarrow> workPools s' = []"
    "t = Returned \<Longrightarrow> workPools s' = []"
    "task_weight t + (length (extensions s) + 1) * lines_left s'
       < task_weight (tasks ! tid) + (length (extensions s) + 1) * lines_left s"
proof -
  note outer = that
  have loop: thesis if "task_loop tid s3 = (t, s')" "workPools s3 = workPools s"
    "poolFiles s3 = poolFiles s" "extensions s3 = extensions s" "recursive s3 = recursive s"
    "task_step get tid (tasks, s) = (tasks[tid := t], s')" "1 \<le> task_weight (tasks ! tid)"
    for s3 t s'
  proof -
    note f = task_loop_fields[OF that(1)] and e = task_loop_end[OF that(1)]
    have w: "workPools s = [] \<Longrightarrow> workPools s' = []"
      using that(1,2) task_loop_empty[of s3 tid] by auto
    have ll: "lines_left s3 = lines_left s" using that(3) by (simp add: lines_left_def)
    have p: "length (workPools s) = length (poolFiles s) \<Longrightarrow>
        length (workPools s') = length (poolFiles s')"
      using task_loop_parallel[OF that(1)] that(2,3) by simp
    have "task_weight t + (length (extensions s) + 1) * lines_left s'
       < task_weight (tasks ! tid) + (length (extensions s) + 1) * lines_left s"
    proof -
      from e consider "task_weight t = 0" "lines_left s' \<le> lines_left s"
        | path fileExt exts where "t = InTestPath path fileExt exts"
            "extensions s3 = fileExt # exts" "lines_left s' < lines_left s"
        using ll by auto
      then show ?thesis
      proof cases
        case 1
        then have "(length (extensions s) + 1) * lines_left s'
            \<le> (length (extensions s) + 1) * lines_left s"
          using mult_le_mono2 by blast
        then show ?thesis using 1(1) that(7) by simp
      next
        case 2
        then have "Suc (lines_left s') \<le> lines_left s" by simp
        then have "(length (extensions s) + 1) * Suc (lines_left s')
            \<le> (length (extensions s) + 1) * lines_left s"
          using mult_le_mono2 by blast
        moreover have "task_weight t = length (extensions s)" using 2(1,2) that(4) by simp
        ultimately show ?thesis by simp
      qed
    qed
    moreover have "t = Returned \<Longrightarrow> workPools s' = []" using e by auto
    ultimately show thesis
      using that f w p assms(3) by (intro outer[of t s']) auto
  qed
  show thesis
  proof (cases "tasks ! tid")
    case AtLoopHead
    obtain t s' where l: "task_loop tid s = (t, s')" by (cases "task_loop tid s")
    then have "task_step get tid (tasks, s) = (tasks[tid := t], s')"
      using assms(1) AtLoopHead by (simp add: task_step_def)
    then show ?thesis using loop[of s t s'] l AtLoopHead by simp
  next
    case (InTestPath path fileExt exts)
    obtain t s' where r: "task_resume get tid path fileExt exts s = (t, s')"
      by (cases "task_resume get tid path fileExt exts s")
    then have ts: "task_step get tid (tasks, s) = (tasks[tid := t], s')"
      using assms(1) InTestPath by (simp add: task_step_def)
    from assms(3) show ?thesis
    proof (cases rule: task_resume_nonrec_cases[where get=get and path=path and fileExt=fileExt
          and tid=tid and exts=exts])
      case (Raise e)
      then have "t = Raised e" "s' = s" using r by simp_all
      then show ?thesis using ts InTestPath assms(3) by (intro outer[of t s']) auto
    next
      case (Next fileExt' exts' s3)
      then have "t = InTestPath path fileExt' exts'" "s' = s3" using r by simp_all
      moreover have "lines_left s3 = lines_left s" using Next(3) by (simp add: lines_left_def)
      ultimately show ?thesis using Next ts InTestPath assms(3)
        by (intro outer[of t s']) auto
    next
      case (Loop s3)
      then have "task_loop tid s3 = (t, s')" using r by simp
      then show ?thesis using loop[of s3 t s'] Loop ts InTestPath by simp
    qed
  next
    case Returned
    then show ?thesis using assms(2) by simp
  next
    case (Raised e)
    then show ?thesis using assms(2) by simp
  qed
qed

lemma step_work:
  assumes "step st st'" and "\<not> recursive (snd st)"
  shows "run_work st' < run_work st \<and> \<not> recursive (snd st')"
  using assms
proof (induction rule: step.induct)
  case (1 tid st get)
  obtain tasks s where st: "st = (tasks, s)" by (cases st)
  from 1 st have a: "tid < length tasks" "active (tasks ! tid)" "\<not> recursive s" by simp_all
  from task_step_nonrec[OF a, of get] obtain t s' where
    r: "task_step get tid (tasks, s) = (tasks[tid := t], s')" "extensions s' = extensions s"
    "\<not> recursive s'"
    "task_weight t + (length (extensions s) + 1) * lines_left s'
       < task_weight (tasks ! tid) + (length (extensions s) + 1) * lines_left s"
    by metis
  from weight_update[OF a(1), of t] r show ?case by (simp add: run_work_def st)
qed

lemma steps_bound:
  "(step ^^ n) st st' \<Longrightarrow> \<not> recursive (snd st) \<Longrightarrow>
   n + run_work st' \<le> run_work st \<and> \<not> recursive (snd st')"
proof (induction n arbitrary: st')
  case 0
  then show ?case by simp
next
  case (Suc n)
  then obtain mid where mid: "(step ^^ n) st mid" "step mid st'" by auto
  from Suc.IH[OF mid(1) Suc.prems(2)] step_work[OF mid(2)] show ?case by simp
qed

lemma step_inv:
  assumes "step st st'" and "run_inv st"
  shows "run_inv st' \<and> length (fst st') = length (fst st)"
  using assms
proof (induction rule: step.induct)
  case (1 tid st get)
  obtain tasks s where st: "st = (tasks, s)" by (cases st)
  have nr: "\<not> recursive s" and len: "length (workPools s) = length (poolFiles s)"
    and ret: "Returned \<in> set tasks \<Longrightarrow> workPools s = []"
    using 1(3) by (simp_all add: run_inv_def st)
  from 1 st have a: "tid < length tasks" "active (tasks ! tid)" by simp_all
  from task_step_nonrec[OF a nr, of get] obtain t s' where
    r: "task_step get tid (tasks, s) = (tasks[tid := t], s')" "\<not> recursive s'"
    "length (workPools s) = length (poolFiles s) \<Longrightarrow> length (workPools s') = length (poolFiles s')"
    "workPools s = [] \<Longrightarrow> workPools s' = []"
    "t = Returned \<Longrightarrow> workPools s' = []"
    by metis
  have "workPools s' = []" if "Returned \<in> set (tasks[tid := t])"
  proof (cases "t = Returned")
    case True
    then show ?thesis using r(5) by simp
  next
    case False
    then have "Returned \<in> set tasks" using that set_update_subset_insert[of tasks tid t] by auto
    then show ?thesis using ret r(4) by simp
  qed
  then show ?case using r len by (simp add: run_inv_def st)
qed

lemma steps_inv:
  "step\<^sup>*\<^sup>* st st' \<Longrightarrow> run_inv st \<Longrightarrow> run_inv st' \<and> length (fst st') = length (fst st)"
  by (induction rule: rtranclp_induct) (auto dest: step_inv)

lemma start_inv:
  "run_inv (start_state (HBusterSession tasks dl cs mn mx False exts status h lines))"
  by (simp add: run_inv_def start_state_def HBusterSession_def addFile_def Let_def)

lemma scheduler_bounded:
  assumes "self = HBusterSession tasks dl cs mn mx False exts status h lines"
    and "(step ^^ n) (start_state self) st"
  shows "n \<le> run_work (start_state self)"
proof -
  have "\<not> recursive (snd (start_state self))"
    using start_inv[of tasks dl cs mn mx exts status h lines] assms(1) by (simp add: run_inv_def)
  from steps_bound[OF assms(2) this] show ?thesis by simp
qed

lemma scheduler_no_IndexError:
  assumes "self = HBusterSession tasks dl cs mn mx False exts status h lines"
    and "step\<^sup>*\<^sup>* (start_state self) st"
  shows "fst (task_loop tid (snd st)) \<noteq> Raised IndexError"
proof -
  have "run_inv st" using steps_inv[OF assms(2)] start_inv assms(1) by blast
  then have "length (workPools (snd st)) = length (poolFiles (snd st))" by (simp add: run_inv_def)
  then show ?thesis using task_loop_end[of tid "snd st"] by (cases "task_loop tid (snd st)") auto
qed

lemma scheduler_returned_empty:
  assumes "self = HBusterSession tasks dl cs mn mx False exts status h lines" and "1 \<le> tasks"
    and "step\<^sup>*\<^sup>* (start_state self) st" and "all_returned st"
  shows "workPools (snd st) = []"
proof -
  have inv: "run_inv (start_state self)" unfolding assms(1) by (rule start_inv)
  have len: "length (fst (start_state self)) = tasks"
    by (simp add: assms(1) start_state_def HBusterSession_def addFile_def Let_def)
  have i: "run_inv st" "length (fst st) = tasks" using steps_inv[OF assms(3) inv] len by simp_all
  then have "fst st \<noteq> []" using assms(2) by auto
  then have "Returned \<in> set (fst st)" using assms(4)
    by (cases "fst st") (auto simp: all_returned_def)
  then show ?thesis using i(1) by (simp add: run_inv_def)
qed

end
